theory Spec2Isabelle
  imports Main
begin

section \<open>Single use dialers (package sud)\<close>

text \<open>
  The package holds one struct, one sentinel error and two methods. A \<^verbatim>\<open>net.Conn\<close> is an
  interface value: \<open>None\<close> is the nil interface, \<open>Some c\<close> a connection \<open>c\<close>. The contexts
  and the TLS configuration are never inspected, so their types stay parameters
  (\<open>'ctx\<close>, \<open>'cfg\<close>); a \<^verbatim>\<open>*tls.Config\<close> is a pointer, \<open>None\<close> when nil.
\<close>

subsection \<open>Errors\<close>

text \<open>
  Go's \<^verbatim>\<open>errors.New\<close> allocates a \<^verbatim>\<open>*errorString\<close>; two such errors are equal when they are
  the same pointer, whatever their text. \<open>errorString p m\<close> is the error allocated at \<open>p\<close>
  with text \<open>m\<close>. \<open>wrapError m e\<close> is what \<^verbatim>\<open>fmt.Errorf\<close> builds with the verb \<^verbatim>\<open>%w\<close>:
  a message \<open>m\<close> around the wrapped error \<open>e\<close>.
\<close>

datatype error = errorString nat string | wrapError string error

text \<open>The method \<^verbatim>\<open>Error()\<close>.\<close>

fun Error :: "error \<Rightarrow> string" where
  "Error (errorString p m) = m"
| "Error (wrapError m e) = m"

text \<open>The method \<^verbatim>\<open>Unwrap()\<close>, which only a wrapping error has.\<close>

fun Unwrap :: "error \<Rightarrow> error option" where
  "Unwrap (errorString p m) = None"
| "Unwrap (wrapError m e) = Some e"

text \<open>
  \<^verbatim>\<open>var ErrNoConnReuse = errors.New("cannot reuse connection")\<close>: allocated once, when the
  package is initialised.
\<close>

definition ErrNoConnReuse_ptr :: nat where
  "ErrNoConnReuse_ptr = 0"

definition ErrNoConnReuse :: error where
  "ErrNoConnReuse = errorString ErrNoConnReuse_ptr ''cannot reuse connection''"

text \<open>
  \<^verbatim>\<open>errors.Is\<close> of the standard library: with a nil on either side it compares the two,
  otherwise it walks the chain of \<^verbatim>\<open>Unwrap\<close>, comparing each error with the target.
\<close>

fun errors_is :: "error \<Rightarrow> error \<Rightarrow> bool" where
  "errors_is (errorString p m) target = (errorString p m = target)"
| "errors_is (wrapError m e) target = (wrapError m e = target \<or> errors_is e target)"

definition errors_Is :: "error option \<Rightarrow> error option \<Rightarrow> bool" where
  "errors_Is err target =
     (case err of
        None \<Rightarrow> err = target
      | Some e \<Rightarrow> (case target of None \<Rightarrow> err = target | Some t \<Rightarrow> errors_is e t))"

text \<open>\<open>n\<close> layers of \<^verbatim>\<open>fmt.Errorf("...: %w", err)\<close>, the outermost message first.\<close>

fun wrap :: "string list \<Rightarrow> error \<Rightarrow> error" where
  "wrap [] e = e"
| "wrap (m # ms) e = wrapError m (wrap ms e)"

subsection \<open>The dialer\<close>

text \<open>
  \<^verbatim>\<open>type SingleUseDialer struct { mu sync.Mutex; conn net.Conn }\<close>. The mutex is its one
  bit of state: locked or not.
\<close>

record 'c SingleUseDialer =
  mu :: bool
  conn :: "'c option"

text \<open>What a dial returns: \<^verbatim>\<open>(net.Conn, error)\<close>.\<close>

type_synonym 'c result = "'c option \<times> error option"

text \<open>
  \<^verbatim>\<open>return &SingleUseDialer{conn: conn}\<close>: the zero value of a mutex is an unlocked one.
\<close>

definition NewSingleUseDialer :: "'c option \<Rightarrow> 'c SingleUseDialer" where
  "NewSingleUseDialer c = \<lparr>mu = False, conn = c\<rparr>"

text \<open>
  \<^verbatim>\<open>sync.Mutex\<close>. \<open>Lock\<close> returns once the mutex is free and takes it; on a locked mutex
  the caller waits, and \<open>None\<close> says that the call does not return in this state.
  \<open>Unlock\<close> frees the mutex; on an unlocked mutex the runtime stops the program with a
  fatal error, which is \<open>None\<close> as well.
\<close>

definition Lock :: "'c SingleUseDialer \<Rightarrow> 'c SingleUseDialer option" where
  "Lock sud = (if mu sud then None else Some (sud\<lparr>mu := True\<rparr>))"

definition Unlock :: "'c SingleUseDialer \<Rightarrow> 'c SingleUseDialer option" where
  "Unlock sud = (if mu sud then Some (sud\<lparr>mu := False\<rparr>) else None)"

text \<open>
  The body of \<^verbatim>\<open>DialContext\<close> between \<^verbatim>\<open>Lock\<close> and the deferred \<^verbatim>\<open>Unlock\<close>:
  \<^verbatim>\<open>
  if sud.conn == nil { return nil, ErrNoConnReuse }
  var conn net.Conn
  conn, sud.conn = sud.conn, nil
  return conn, nil
  \<close>
\<close>

definition DialContext_locked :: "'c SingleUseDialer \<Rightarrow> 'c result \<times> 'c SingleUseDialer" where
  "DialContext_locked sud =
     (if conn sud = None then ((None, Some ErrNoConnReuse), sud)
      else ((conn sud, None), sud\<lparr>conn := None\<rparr>))"

text \<open>
  \<^verbatim>\<open>DialContext\<close> run by one goroutine from entry to return: \<^verbatim>\<open>Lock\<close>, the body, the
  deferred \<^verbatim>\<open>Unlock\<close>. \<open>None\<close>: the call does not return.
\<close>

definition DialContext ::
  "'ctx \<Rightarrow> string \<Rightarrow> string \<Rightarrow> 'c SingleUseDialer \<Rightarrow> ('c result \<times> 'c SingleUseDialer) option"
where
  "DialContext ctx network addr sud =
     (case Lock sud of
        None \<Rightarrow> None
      | Some s1 \<Rightarrow>
          (case DialContext_locked s1 of
             (r, s2) \<Rightarrow> (case Unlock s2 of None \<Rightarrow> None | Some s3 \<Rightarrow> Some (r, s3))))"

text \<open>\<^verbatim>\<open>return d.DialContext(ctx, network, address)\<close>.\<close>

definition DialTLSContext ::
  "'ctx \<Rightarrow> string \<Rightarrow> string \<Rightarrow> 'cfg option \<Rightarrow> 'c SingleUseDialer
     \<Rightarrow> ('c result \<times> 'c SingleUseDialer) option"
where
  "DialTLSContext ctx network address cfg d = DialContext ctx network address d"

subsection \<open>Sequences of calls\<close>

text \<open>A call of either method with its arguments, and a caller making one call after another.\<close>

datatype ('ctx, 'cfg) call =
  Dial 'ctx string string
| DialTLS 'ctx string string "'cfg option"

fun take_conn ::
  "('ctx, 'cfg) call \<Rightarrow> 'c SingleUseDialer \<Rightarrow> ('c result \<times> 'c SingleUseDialer) option"
where
  "take_conn (Dial ctx network addr) sud = DialContext ctx network addr sud"
| "take_conn (DialTLS ctx network address cfg) sud = DialTLSContext ctx network address cfg sud"

fun take_all ::
  "('ctx, 'cfg) call list \<Rightarrow> 'c SingleUseDialer \<Rightarrow> ('c result list \<times> 'c SingleUseDialer) option"
where
  "take_all [] sud = Some ([], sud)"
| "take_all (k # ks) sud =
     (case take_conn k sud of
        None \<Rightarrow> None
      | Some (r, s1) \<Rightarrow>
          (case take_all ks s1 of None \<Rightarrow> None | Some (rs, s2) \<Rightarrow> Some (r # rs, s2)))"

text \<open>A result that hands a connection out: its connection is not nil.\<close>

definition hands_out :: "'c result \<Rightarrow> bool" where
  "hands_out r = (fst r \<noteq> None)"

subsection \<open>Goroutines calling concurrently\<close>

text \<open>
  Where a goroutine stands in its call of \<^verbatim>\<open>DialContext\<close>. Between two goroutines only
  the accesses to shared memory matter, so the call is cut at each of them:
  \<^item> \<open>Calling\<close>: about to \<^verbatim>\<open>sud.mu.Lock()\<close>;
  \<^item> \<open>Checking\<close>: past \<^verbatim>\<open>Lock\<close>, about to read \<^verbatim>\<open>sud.conn\<close> for the test
    \<^verbatim>\<open>sud.conn == nil\<close>;
  \<^item> \<open>Reading\<close>: the test found a connection; about to read \<^verbatim>\<open>sud.conn\<close> again, as the
    right-hand side of \<^verbatim>\<open>conn, sud.conn = sud.conn, nil\<close>;
  \<^item> \<open>Storing v\<close>: it has read \<open>v\<close> into its local \<^verbatim>\<open>conn\<close>; about to store nil into
    \<^verbatim>\<open>sud.conn\<close>;
  \<^item> \<open>Unlocking r\<close>: a \<^verbatim>\<open>return\<close> has fixed the result \<open>r\<close>; about to run the deferred
    \<^verbatim>\<open>sud.mu.Unlock()\<close>;
  \<^item> \<open>Returned r\<close>: the call has returned \<open>r\<close>.
\<close>

datatype 'c goroutine =
  Calling
| Checking
| Reading
| Storing "'c option"
| Unlocking "'c result"
| Returned "'c result"

text \<open>The next step of a goroutine on the shared dialer; \<open>None\<close> when it cannot move.\<close>

fun advance ::
  "'c goroutine \<Rightarrow> 'c SingleUseDialer \<Rightarrow> ('c goroutine \<times> 'c SingleUseDialer) option"
where
  "advance Calling sud =
     (case Lock sud of None \<Rightarrow> None | Some s \<Rightarrow> Some (Checking, s))"
| "advance Checking sud =
     (if conn sud = None then Some (Unlocking (None, Some ErrNoConnReuse), sud)
      else Some (Reading, sud))"
| "advance Reading sud = Some (Storing (conn sud), sud)"
| "advance (Storing v) sud = Some (Unlocking (v, None), sud\<lparr>conn := None\<rparr>)"
| "advance (Unlocking r) sud =
     (case Unlock sud of None \<Rightarrow> None | Some s \<Rightarrow> Some (Returned r, s))"
| "advance (Returned r) sud = None"

text \<open>
  The dialer and the goroutines that share it. The scheduler picks goroutine \<open>i\<close>, which
  takes its next step; a schedule is the list of its picks.
\<close>

type_synonym 'c system = "'c SingleUseDialer \<times> 'c goroutine list"

fun step :: "nat \<Rightarrow> 'c system \<Rightarrow> 'c system option" where
  "step i (sud, gs) =
     (if i < length gs then
        (case advance (gs ! i) sud of
           None \<Rightarrow> None
         | Some (g, s) \<Rightarrow> Some (s, gs[i := g]))
      else None)"

fun exec :: "nat list \<Rightarrow> 'c system \<Rightarrow> 'c system option" where
  "exec [] st = Some st"
| "exec (i # sched) st = (case step i st of None \<Rightarrow> None | Some st1 \<Rightarrow> exec sched st1)"

text \<open>No goroutine can move: all have returned, or some wait for ever.\<close>

definition stuck :: "'c system \<Rightarrow> bool" where
  "stuck st = list_all (\<lambda>i. step i st = None) [0 ..< length (snd st)]"

text \<open>\<open>n\<close> goroutines, each about to call \<^verbatim>\<open>DialContext\<close> on the dialer.\<close>

definition spawn :: "nat \<Rightarrow> 'c SingleUseDialer \<Rightarrow> 'c system" where
  "spawn n sud = (sud, replicate n Calling)"

subsection \<open>Invariants of the concurrent runs\<close>

text \<open>
  Which goroutines hold the mutex; which have not looked at the slot yet; which are
  taking \<open>c\<close> out of it, between the test and the store; which have their result; and a
  bound on the steps a goroutine still takes before its call has returned.
\<close>

fun holds_mutex :: "'c goroutine \<Rightarrow> bool" where
  "holds_mutex Calling = False"
| "holds_mutex (Returned r) = False"
| "holds_mutex g = True"

fun early :: "'c goroutine \<Rightarrow> bool" where
  "early Calling = True"
| "early Checking = True"
| "early g = False"

fun taking :: "'c \<Rightarrow> 'c goroutine \<Rightarrow> bool" where
  "taking c Reading = True"
| "taking c (Storing v) = (v = Some c)"
| "taking c g = False"

fun outcome :: "'c goroutine \<Rightarrow> 'c result option" where
  "outcome (Unlocking r) = Some r"
| "outcome (Returned r) = Some r"
| "outcome g = None"

fun steps_left :: "'c goroutine \<Rightarrow> nat" where
  "steps_left Calling = 5"
| "steps_left Checking = 4"
| "steps_left Reading = 3"
| "steps_left (Storing v) = 2"
| "steps_left (Unlocking r) = 1"
| "steps_left (Returned r) = 0"

text \<open>A bound on the steps all goroutines together still take.\<close>

definition work :: "'c system \<Rightarrow> nat" where
  "work st = sum_list (map steps_left (snd st))"

text \<open>The mutex is locked exactly when a goroutine holds it, and no two goroutines hold it.\<close>

definition one_holder :: "'c system \<Rightarrow> bool" where
  "one_holder st =
     ((mu (fst st) \<longleftrightarrow> (\<exists>i < length (snd st). holds_mutex (snd st ! i))) \<and>
      (\<forall>i < length (snd st). \<forall>j < length (snd st).
         holds_mutex (snd st ! i) \<and> holds_mutex (snd st ! j) \<longrightarrow> i = j))"

text \<open>
  Either the slot still holds \<open>c\<close> and every goroutine is early or taking \<open>c\<close>; or the
  slot is empty, one goroutine has \<open>c\<close> as its result, and every other one is early or
  has the sentinel error as its result.
\<close>

definition one_winner :: "'c \<Rightarrow> 'c system \<Rightarrow> bool" where
  "one_winner c st =
     (conn (fst st) = Some c \<and>
        (\<forall>i < length (snd st). early (snd st ! i) \<or> taking c (snd st ! i)) \<or>
      conn (fst st) = None \<and>
        (\<exists>w < length (snd st). outcome (snd st ! w) = Some (Some c, None) \<and>
           (\<forall>j < length (snd st). j \<noteq> w \<longrightarrow>
              early (snd st ! j) \<or>
              outcome (snd st ! j) = Some (None, Some ErrNoConnReuse))))"

section \<open>One caller\<close>

text \<open>What a call returns on an unlocked dialer, and that it waits for ever on a locked one.\<close>

lemma DialContext_unlocked:
  "\<not> mu sud \<Longrightarrow>
     DialContext ctx network addr sud =
       Some (if conn sud = None then ((None, Some ErrNoConnReuse), sud)
             else ((conn sud, None), sud\<lparr>conn := None\<rparr>))"
  by (cases sud) (simp add: DialContext_def Lock_def Unlock_def DialContext_locked_def)

lemma DialContext_blocked:
  "mu sud \<Longrightarrow> DialContext ctx network addr sud = None"
  by (simp add: DialContext_def Lock_def)

lemma take_conn_unlocked:
  "\<not> mu sud \<Longrightarrow>
     take_conn k sud =
       Some (if conn sud = None then ((None, Some ErrNoConnReuse), sud)
             else ((conn sud, None), sud\<lparr>conn := None\<rparr>))"
  by (cases k) (simp_all add: DialTLSContext_def DialContext_unlocked)

lemma take_conn_blocked: "mu sud \<Longrightarrow> take_conn k sud = None"
  by (cases k) (simp_all add: DialTLSContext_def DialContext_blocked)

lemma take_conn_Some:
  assumes "take_conn k sud = Some (r, s1)"
  shows "\<not> mu sud \<and> \<not> mu s1 \<and> conn s1 = None \<and>
         (conn sud = None \<longrightarrow> r = (None, Some ErrNoConnReuse) \<and> s1 = sud) \<and>
         (conn sud \<noteq> None \<longrightarrow> r = (conn sud, None) \<and> s1 = sud\<lparr>conn := None\<rparr>)"
proof (cases "mu sud")
  case True
  with assms show ?thesis by (simp add: take_conn_blocked)
next
  case False
  with assms show ?thesis by (auto simp: take_conn_unlocked split: if_splits)
qed

lemma take_all_spent:
  "\<not> mu sud \<Longrightarrow> conn sud = None \<Longrightarrow>
     take_all ks sud = Some (replicate (length ks) (None, Some ErrNoConnReuse), sud)"
  by (induction ks) (simp_all add: take_conn_unlocked)

lemma errors_is_wrap: "errors_is (wrap ms e) e"
  by (induction ms) (cases e; simp)+

lemma errors_Is_wrap: "errors_Is (Some (wrap ms e)) (Some e)"
  by (simp add: errors_Is_def errors_is_wrap)

lemma take_all_returns:
  assumes "\<not> mu sud"
  shows "\<exists>rs s'. take_all ks sud = Some (rs, s')"
proof (cases ks)
  case Nil
  then show ?thesis by simp
next
  case (Cons k ks')
  show ?thesis
  proof (cases "conn sud = None")
    case True
    with assms show ?thesis by (simp add: take_all_spent)
  next
    case False
    with assms show ?thesis
      unfolding Cons by (simp add: take_conn_unlocked take_all_spent)
  qed
qed

lemma take_all_hands_out:
  "take_all ks sud = Some (rs, s') \<Longrightarrow>
     length (filter hands_out rs) \<le> 1 \<and>
     (\<forall>r \<in> set rs. hands_out r \<longrightarrow> fst r = conn sud) \<and>
     (conn sud = None \<longrightarrow> conn s' = None \<and> filter hands_out rs = [])"
proof (induction ks arbitrary: sud rs)
  case Nil
  then show ?case by simp
next
  case (Cons k ks)
  from Cons.prems obtain r s1 rs1 where
    k: "take_conn k sud = Some (r, s1)" and
    ks: "take_all ks s1 = Some (rs1, s')" and rs: "rs = r # rs1"
    by (auto split: option.splits)
  from take_conn_Some [OF k] have s1: "conn s1 = None"
    and r: "conn sud = None \<longrightarrow> r = (None, Some ErrNoConnReuse)"
           "conn sud \<noteq> None \<longrightarrow> r = (conn sud, None)"
    by simp_all
  from Cons.IH [OF ks] s1 have rest: "filter hands_out rs1 = []" "conn s' = None" by simp_all
  from rest(1) have none: "\<forall>x \<in> set rs1. \<not> hands_out x"
    by (simp add: filter_empty_conv)
  from r have hr: "hands_out r \<longrightarrow> fst r = conn sud" "conn sud = None \<longrightarrow> \<not> hands_out r"
    by (auto simp: hands_out_def)
  show ?case unfolding rs using rest none hr by auto
qed

lemma take_conn_args: "take_conn k sud = take_conn k' sud"
  by (cases "mu sud") (simp_all add: take_conn_blocked take_conn_unlocked)

lemma take_all_args: "length ks = length ks' \<Longrightarrow> take_all ks sud = take_all ks' sud"
proof (induction ks ks' arbitrary: sud rule: list_induct2)
  case Nil
  then show ?case by simp
next
  case (Cons k ks k' ks')
  have "take_conn k sud = take_conn k' sud" by (rule take_conn_args)
  with Cons.IH show ?case by (simp split: option.splits)
qed

text \<open>The loop of \<^verbatim>\<open>errors.Is\<close>: compare, then go on with what \<^verbatim>\<open>Unwrap\<close> gives, if anything.\<close>

lemma errors_is_Unwrap:
  "errors_is e target =
     (e = target \<or> (case Unwrap e of None \<Rightarrow> False | Some e' \<Rightarrow> errors_is e' target))"
  by (cases e) simp_all

text \<open>
  Detection is by identity: an error from another \<^verbatim>\<open>errors.New\<close> with the same text is
  not the sentinel.
\<close>

lemma errors_Is_identity:
  "p \<noteq> ErrNoConnReuse_ptr \<Longrightarrow>
     \<not> errors_Is (Some (errorString p ''cannot reuse connection'')) (Some ErrNoConnReuse)"
  by (simp add: errors_Is_def ErrNoConnReuse_def)

section \<open>Many goroutines\<close>

text \<open>The steps a goroutine can take, read off \<open>advance\<close>.\<close>

lemma advance_cases:
  assumes "advance g sud = Some (g', s)"
  obtains
    (lock) "g = Calling" "\<not> mu sud" "g' = Checking" "s = sud\<lparr>mu := True\<rparr>"
  | (empty) "g = Checking" "conn sud = None" "g' = Unlocking (None, Some ErrNoConnReuse)" "s = sud"
  | (full) "g = Checking" "conn sud \<noteq> None" "g' = Reading" "s = sud"
  | (read) "g = Reading" "g' = Storing (conn sud)" "s = sud"
  | (store) v where "g = Storing v" "g' = Unlocking (v, None)" "s = sud\<lparr>conn := None\<rparr>"
  | (unlock) r where "g = Unlocking r" "mu sud" "g' = Returned r" "s = sud\<lparr>mu := False\<rparr>"
proof (cases g)
  case Calling
  with assms show ?thesis by (intro lock) (simp_all add: Lock_def split: if_splits)
next
  case Checking
  show ?thesis
  proof (cases "conn sud = None")
    case True
    with assms Checking show ?thesis by (intro empty) simp_all
  next
    case False
    with assms Checking show ?thesis by (intro full) simp_all
  qed
next
  case Reading
  with assms show ?thesis by (intro read) auto
next
  case (Storing v)
  with assms show ?thesis by (intro store [of v]) simp_all
next
  case (Unlocking r)
  with assms show ?thesis by (intro unlock [of r]) (simp_all add: Unlock_def split: if_splits)
next
  case (Returned r)
  with assms show ?thesis by simp
qed

lemma step_Some:
  assumes "step i (sud, gs) = Some (s, gs')"
  shows "i < length gs \<and> gs' = gs[i := gs' ! i] \<and> advance (gs ! i) sud = Some (gs' ! i, s)"
  using assms by (auto split: if_splits option.splits)

lemma step_length: "step i st = Some st' \<Longrightarrow> length (snd st') = length (snd st)"
  by (cases st) (auto split: if_splits option.splits)

lemma step_None:
  "i < length gs \<Longrightarrow> step i (sud, gs) = None \<longleftrightarrow> advance (gs ! i) sud = None"
  by (auto split: option.splits)

text \<open>Each step uses up work, so a schedule has no more picks than there was work.\<close>

lemma steps_left_update:
  "i < length gs \<Longrightarrow>
     sum_list (map steps_left (gs[i := g])) + steps_left (gs ! i) =
     sum_list (map steps_left gs) + steps_left g"
  by (induction gs arbitrary: i) (auto split: nat.splits)

lemma step_work:
  assumes "step i st = Some st'"
  shows "work st' < work st"
proof -
  obtain sud gs s gs' where st: "st = (sud, gs)" "st' = (s, gs')"
    by (cases st, cases st')
  from step_Some [OF assms [unfolded st]] have i: "i < length gs"
    and gs': "gs' = gs[i := gs' ! i]" and adv: "advance (gs ! i) sud = Some (gs' ! i, s)"
    by simp_all
  from adv have "steps_left (gs' ! i) < steps_left (gs ! i)"
    by (cases rule: advance_cases) simp_all
  moreover have "sum_list (map steps_left gs') + steps_left (gs ! i)
      = sum_list (map steps_left gs) + steps_left (gs' ! i)"
    using steps_left_update [OF i, of "gs' ! i"] gs' by simp
  ultimately show ?thesis by (simp add: work_def st)
qed

lemma exec_work: "exec sched st = Some st' \<Longrightarrow> length sched + work st' \<le> work st"
proof (induction sched arbitrary: st)
  case Nil
  then show ?case by simp
next
  case (Cons i sched)
  then obtain st1 where 1: "step i st = Some st1" and 2: "exec sched st1 = Some st'"
    by (auto split: option.splits)
  from Cons.IH [OF 2] step_work [OF 1] show ?case by simp
qed

lemma work_spawn: "work (spawn n sud) = 5 * n"
  by (induction n) (simp_all add: work_def spawn_def)

text \<open>
  One goroutine alone goes through the sequential \<^verbatim>\<open>DialContext\<close>: three steps when the
  slot is empty, five when it is not.
\<close>

lemma DialContext_as_steps:
  "exec (if conn sud = None then [0, 0, 0] else [0, 0, 0, 0, 0]) (spawn 1 sud) =
     (case DialContext ctx network addr sud of
        None \<Rightarrow> None
      | Some (r, s) \<Rightarrow> Some (s, [Returned r]))"
  by (simp add: spawn_def DialContext_def Lock_def Unlock_def DialContext_locked_def)

text \<open>The mutex has one holder at most, at the start and after every step.\<close>

lemma one_holderI:
  assumes "mu s \<longleftrightarrow> (\<exists>j < length gs. holds_mutex (gs ! j))"
    and "\<And>j k. j < length gs \<Longrightarrow> k < length gs \<Longrightarrow> holds_mutex (gs ! j)
           \<Longrightarrow> holds_mutex (gs ! k) \<Longrightarrow> j = k"
  shows "one_holder (s, gs)"
  unfolding one_holder_def fst_conv snd_conv using assms by blast

lemma one_holderD:
  assumes "one_holder (s, gs)"
  shows "mu s \<longleftrightarrow> (\<exists>j < length gs. holds_mutex (gs ! j))"
    and "\<And>j k. j < length gs \<Longrightarrow> k < length gs \<Longrightarrow> holds_mutex (gs ! j)
           \<Longrightarrow> holds_mutex (gs ! k) \<Longrightarrow> j = k"
  using assms unfolding one_holder_def fst_conv snd_conv by blast+

lemma one_holder_step:
  assumes "step i st = Some st'" and "one_holder st"
  shows "one_holder st'"
proof -
  obtain sud gs s gs' where st: "st = (sud, gs)" "st' = (s, gs')"
    by (cases st, cases st')
  from step_Some [OF assms(1) [unfolded st]] have i: "i < length gs"
    and gs': "gs' = gs[i := gs' ! i]" and adv: "advance (gs ! i) sud = Some (gs' ! i, s)"
    by simp_all
  define g where "g = gs' ! i"
  have upd: "gs' = gs[i := g]" using gs' by (simp add: g_def)
  have len: "length gs' = length gs" by (simp add: upd)
  have at_i: "gs' ! i = g" by (simp add: g_def)
  have off_i: "gs' ! j = gs ! j" if "j \<noteq> i" for j using that by (simp add: upd)
  note inv = one_holderD [OF assms(2) [unfolded st]]
  from adv consider
      (lock) "gs ! i = Calling" "\<not> mu sud" "g = Checking" "s = sud\<lparr>mu := True\<rparr>"
    | (body) "holds_mutex (gs ! i)" "holds_mutex g" "mu s = mu sud"
    | (unlock) r where "gs ! i = Unlocking r" "mu sud" "g = Returned r" "s = sud\<lparr>mu := False\<rparr>"
    by (cases rule: advance_cases) (simp_all add: g_def)
  then show ?thesis
  proof cases
    case lock
    from lock(2) inv(1) have none: "\<not> holds_mutex (gs ! j)" if "j < length gs" for j
      using that by blast
    have hm: "holds_mutex (gs' ! j) \<longleftrightarrow> j = i" if "j < length gs" for j
      using none [OF that] at_i off_i [of j] lock(3) by (cases "j = i") simp_all
    show ?thesis unfolding st
    proof (rule one_holderI)
      show "mu s \<longleftrightarrow> (\<exists>j < length gs'. holds_mutex (gs' ! j))"
        using hm [OF i] i lock(4) len by auto
    next
      fix j k assume "j < length gs'" "k < length gs'" "holds_mutex (gs' ! j)" "holds_mutex (gs' ! k)"
      then show "j = k" using hm len by simp
    qed
  next
    case body
    have hm: "holds_mutex (gs' ! j) \<longleftrightarrow> holds_mutex (gs ! j)" for j
      using at_i off_i [of j] body(1,2) by (cases "j = i") simp_all
    show ?thesis unfolding st
    proof (rule one_holderI)
      show "mu s \<longleftrightarrow> (\<exists>j < length gs'. holds_mutex (gs' ! j))"
        using inv(1) by (simp add: body(3) hm len)
    next
      fix j k assume "j < length gs'" "k < length gs'" "holds_mutex (gs' ! j)" "holds_mutex (gs' ! k)"
      then show "j = k" using inv(2) [of j k] by (simp add: hm len)
    qed
  next
    case unlock
    have hi: "holds_mutex (gs ! i)" by (simp add: unlock(1))
    have hm: "\<not> holds_mutex (gs' ! j)" if "j < length gs" for j
    proof (cases "j = i")
      case True
      then show ?thesis by (simp add: at_i unlock(3))
    next
      case False
      with inv(2) [OF that i _ hi] show ?thesis by (auto simp: off_i)
    qed
    show ?thesis unfolding st
    proof (rule one_holderI)
      show "mu s \<longleftrightarrow> (\<exists>j < length gs'. holds_mutex (gs' ! j))"
        using hm by (simp add: unlock(4) len)
    next
      fix j k assume "j < length gs'" "k < length gs'" "holds_mutex (gs' ! j)" "holds_mutex (gs' ! k)"
      then show "j = k" using hm len by simp
    qed
  qed
qed

text \<open>
  The connection has one taker at most. The step that empties the slot is where the mutex
  is needed: its goroutine holds the mutex, so no other goroutine stands between the test
  and the store.
\<close>

lemma one_winner_fresh:
  assumes "conn s = Some c" and "\<And>j. j < length gs \<Longrightarrow> early (gs ! j) \<or> taking c (gs ! j)"
  shows "one_winner c (s, gs)"
  unfolding one_winner_def fst_conv snd_conv using assms by blast

lemma one_winner_spent:
  assumes "conn s = None" and "w < length gs" and "outcome (gs ! w) = Some (Some c, None)"
    and "\<And>j. j < length gs \<Longrightarrow> j \<noteq> w \<Longrightarrow>
           early (gs ! j) \<or> outcome (gs ! j) = Some (None, Some ErrNoConnReuse)"
  shows "one_winner c (s, gs)"
  unfolding one_winner_def fst_conv snd_conv using assms by blast

lemma one_winner_cases:
  assumes "one_winner c (s, gs)"
  obtains (fresh) "conn s = Some c" "\<And>j. j < length gs \<Longrightarrow> early (gs ! j) \<or> taking c (gs ! j)"
  | (spent) w where "conn s = None" "w < length gs" "outcome (gs ! w) = Some (Some c, None)"
      "\<And>j. j < length gs \<Longrightarrow> j \<noteq> w \<Longrightarrow>
           early (gs ! j) \<or> outcome (gs ! j) = Some (None, Some ErrNoConnReuse)"
  using assms unfolding one_winner_def fst_conv snd_conv by blast

lemma taking_holds_mutex: "taking c g \<Longrightarrow> holds_mutex g"
  by (cases g) simp_all

lemma one_winner_step:
  assumes "step i st = Some st'" and "one_holder st" and "one_winner c st"
  shows "one_winner c st'"
proof -
  obtain sud gs s gs' where st: "st = (sud, gs)" "st' = (s, gs')"
    by (cases st, cases st')
  from step_Some [OF assms(1) [unfolded st]] have i: "i < length gs"
    and gs': "gs' = gs[i := gs' ! i]" and adv: "advance (gs ! i) sud = Some (gs' ! i, s)"
    by simp_all
  define g where "g = gs' ! i"
  have upd: "gs' = gs[i := g]" using gs' by (simp add: g_def)
  have len: "length gs' = length gs" by (simp add: upd)
  have at_i: "gs' ! i = g" by (simp add: g_def)
  have off_i: "gs' ! j = gs ! j" if "j \<noteq> i" for j using that by (simp add: upd)
  note holder = one_holderD(2) [OF assms(2) [unfolded st]]
  note inv = assms(3) [unfolded st]
  from inv show ?thesis unfolding st
  proof (cases rule: one_winner_cases)
    case fresh
    from fresh(2) [OF i] have now: "early (gs ! i) \<or> taking c (gs ! i)" .
    from adv now fresh(1) consider
        (stay) "conn s = Some c" "early g \<or> taking c g"
      | (store) "gs ! i = Storing (Some c)" "g = Unlocking (Some c, None)" "conn s = None"
      by (cases rule: advance_cases) (auto simp: g_def)
    then show "one_winner c (s, gs')"
    proof cases
      case stay
      show ?thesis
      proof (rule one_winner_fresh [OF stay(1)])
        fix j assume "j < length gs'"
        then have j: "j < length gs" by (simp add: len)
        show "early (gs' ! j) \<or> taking c (gs' ! j)"
          using fresh(2) [OF j] stay(2) at_i off_i [of j] by (cases "j = i") simp_all
      qed
    next
      case store
      have hi: "holds_mutex (gs ! i)" by (simp add: store(1))
      show ?thesis
      proof (rule one_winner_spent [of _ i])
        show "conn s = None" by (rule store(3))
        show "i < length gs'" by (simp add: len i)
        show "outcome (gs' ! i) = Some (Some c, None)" by (simp add: at_i store(2))
        show "early (gs' ! j) \<or> outcome (gs' ! j) = Some (None, Some ErrNoConnReuse)"
          if "j < length gs'" "j \<noteq> i" for j
        proof -
          from that have j: "j < length gs" by (simp add: len)
          have "\<not> taking c (gs ! j)"
          proof
            assume "taking c (gs ! j)"
            then have "holds_mutex (gs ! j)" by (rule taking_holds_mutex)
            from holder [OF j i this hi] that(2) show False by simp
          qed
          with fresh(2) [OF j] have "early (gs ! j)" by simp
          then show ?thesis by (simp add: off_i [OF that(2)])
        qed
      qed
    qed
  next
    case (spent w)
    have settled: "early (gs ! i) \<or> outcome (gs ! i) \<noteq> None"
      using spent(3) spent(4) [of i] i by (cases "i = w") auto
    from adv settled spent(1) consider
        (lock) "gs ! i = Calling" "g = Checking" "conn s = None"
      | (empty) "gs ! i = Checking" "g = Unlocking (None, Some ErrNoConnReuse)" "conn s = None"
      | (unlock) r where "gs ! i = Unlocking r" "g = Returned r" "conn s = None"
      by (cases rule: advance_cases) (auto simp: g_def)
    then have "conn s = None \<and> (i = w \<longrightarrow> outcome g = outcome (gs ! i)) \<and>
        (i \<noteq> w \<longrightarrow> early g \<or> outcome g = Some (None, Some ErrNoConnReuse))"
    proof cases
      case lock
      with spent(3) show ?thesis by auto
    next
      case empty
      with spent(3) show ?thesis by auto
    next
      case (unlock r)
      with spent(4) [OF i] show ?thesis by auto
    qed
    then have s: "conn s = None"
      and iw: "i = w \<longrightarrow> outcome g = outcome (gs ! i)"
      and other: "i \<noteq> w \<longrightarrow> early g \<or> outcome g = Some (None, Some ErrNoConnReuse)"
      by simp_all
    show "one_winner c (s, gs')"
    proof (rule one_winner_spent [of _ w])
      show "conn s = None" by (rule s)
      show "w < length gs'" by (simp add: len spent(2))
      show "outcome (gs' ! w) = Some (Some c, None)"
        using spent(3) iw at_i off_i [of w] by (cases "w = i") simp_all
      show "early (gs' ! j) \<or> outcome (gs' ! j) = Some (None, Some ErrNoConnReuse)"
        if "j < length gs'" "j \<noteq> w" for j
      proof (cases "j = i")
        case True
        with that(2) other show ?thesis by (simp add: at_i)
      next
        case False
        with spent(4) [of j] that show ?thesis by (simp add: off_i len)
      qed
    qed
  qed
qed

lemma exec_invariant:
  assumes "exec sched st = Some st'" and "one_holder st" and "one_winner c st"
  shows "one_holder st' \<and> one_winner c st' \<and> length (snd st') = length (snd st)"
  using assms
proof (induction sched arbitrary: st)
  case Nil
  then show ?case by simp
next
  case (Cons i sched)
  then obtain st1 where 1: "step i st = Some st1" and 2: "exec sched st1 = Some st'"
    by (auto split: option.splits)
  from Cons.IH [OF 2 one_holder_step [OF 1 Cons.prems(2)]
      one_winner_step [OF 1 Cons.prems(2) Cons.prems(3)]]
    step_length [OF 1]
  show ?case by simp
qed

lemma spawn_one_holder: "one_holder (spawn n (NewSingleUseDialer c))"
  unfolding spawn_def by (rule one_holderI) (simp_all add: NewSingleUseDialer_def)

lemma spawn_one_winner: "one_winner c (spawn n (NewSingleUseDialer (Some c)))"
  unfolding spawn_def by (rule one_winner_fresh) (simp_all add: NewSingleUseDialer_def)

text \<open>When no goroutine can move, none holds the mutex and none waits for it.\<close>

lemma stuck_iff: "stuck (sud, gs) \<longleftrightarrow> (\<forall>i < length gs. advance (gs ! i) sud = None)"
  unfolding stuck_def list_all_iff snd_conv using step_None [of _ gs sud] by auto

lemma stuck_all_returned:
  assumes "stuck (sud, gs)" and "one_holder (sud, gs)" and "i < length gs"
  shows "\<exists>r. gs ! i = Returned r"
proof -
  from assms(1) have none: "advance (gs ! j) sud = None" if "j < length gs" for j
    using that by (simp add: stuck_iff)
  note mu = one_holderD(1) [OF assms(2)]
  have free: "\<not> holds_mutex (gs ! j)" if j: "j < length gs" for j
  proof
    assume h: "holds_mutex (gs ! j)"
    with mu j have "mu sud" by blast
    with h none [OF j] show False
      by (cases "gs ! j") (simp_all add: Unlock_def split: if_splits)
  qed
  with mu have "\<not> mu sud" by blast
  with none [OF assms(3)] free [OF assms(3)] show ?thesis
    by (cases "gs ! i") (simp_all add: Lock_def)
qed

section \<open>The claims\<close>

text \<open>
  C1. \<open>N \<ge> 1\<close> goroutines call \<^verbatim>\<open>DialContext\<close> concurrently on a fresh dialer seeded with
  the connection \<open>c\<close>, their steps interleaved at every access to the mutex and to the
  slot. Whatever the scheduler does, a run has at most \<open>5 * N\<close> steps, and a state in
  which no goroutine can move is one with every call returned: one goroutine \<open>w\<close> has
  \<open>c\<close> and no error, each of the other \<open>N - 1\<close> has nil and \<^verbatim>\<open>ErrNoConnReuse\<close>. So no call
  waits for ever, none returns another error or another connection, and exactly one wins.
\<close>

theorem DialContext_concurrent_exactly_one:
  assumes "1 \<le> N"
    and "exec sched (spawn N (NewSingleUseDialer (Some c))) = Some (sud, gs)"
  shows "length sched \<le> 5 * N \<and> length gs = N \<and>
         (stuck (sud, gs) \<longrightarrow>
            (\<exists>w < N. gs = (replicate N (Returned (None, Some ErrNoConnReuse)))
                              [w := Returned (Some c, None)]))"
proof -
  from exec_work [OF assms(2)] have len: "length sched \<le> 5 * N"
    by (simp add: work_spawn)
  from exec_invariant [OF assms(2) spawn_one_holder spawn_one_winner]
  have oh: "one_holder (sud, gs)" and ow: "one_winner c (sud, gs)" and n: "length gs = N"
    by (simp_all add: spawn_def)
  have fin: "\<exists>w < N. gs = (replicate N (Returned (None, Some ErrNoConnReuse)))
                              [w := Returned (Some c, None)]"
    if stuck: "stuck (sud, gs)"
  proof -
    have ret: "\<exists>r. gs ! i = Returned r" if "i < N" for i
      using stuck_all_returned [OF stuck oh] that n by simp
    from assms(1) have 0: "0 < length gs" by (simp add: n)
    from ret [of 0] 0 n have late: "\<not> early (gs ! 0)" "\<not> taking c (gs ! 0)" by auto
    from ow obtain w where w: "w < N" "outcome (gs ! w) = Some (Some c, None)"
      and rest: "\<And>j. j < N \<Longrightarrow> j \<noteq> w \<Longrightarrow>
          early (gs ! j) \<or> outcome (gs ! j) = Some (None, Some ErrNoConnReuse)"
    proof (cases rule: one_winner_cases)
      case fresh
      from fresh(2) [OF 0] late show ?thesis by simp
    next
      case (spent w)
      with that n show ?thesis by simp
    qed
    have "gs = (replicate N (Returned (None, Some ErrNoConnReuse)))[w := Returned (Some c, None)]"
    proof (rule nth_equalityI)
      show "length gs = length ((replicate N (Returned (None, Some ErrNoConnReuse)))
          [w := Returned (Some c, None)])"
        by (simp add: n)
    next
      fix j assume "j < length gs"
      then have j: "j < N" by (simp add: n)
      from ret [OF j] obtain r where r: "gs ! j = Returned r" by blast
      show "gs ! j = (replicate N (Returned (None, Some ErrNoConnReuse)))
          [w := Returned (Some c, None)] ! j"
      proof (cases "j = w")
        case True
        with w r j show ?thesis by simp
      next
        case False
        with rest [OF j False] r have "r = (None, Some ErrNoConnReuse)" by simp
        with r False j show ?thesis by simp
      qed
    qed
    with w(1) show ?thesis by blast
  qed
  with len n show ?thesis by blast
qed

theorem DialContext_concurrent_exactly_one_witness:
  "(1::nat) \<le> 2 \<and>
   exec [1, 1, 1, 1, 0, 1, 0, 0] (spawn 2 (NewSingleUseDialer (Some (7::nat)))) = None \<and>
   exec [1, 1, 1, 1, 1, 0, 0, 0] (spawn 2 (NewSingleUseDialer (Some (7::nat)))) =
     Some (\<lparr>mu = False, conn = None\<rparr>,
           [Returned (None, Some ErrNoConnReuse), Returned (Some 7, None)]) \<and>
   stuck (\<lparr>mu = False, conn = None :: nat option\<rparr>,
          [Returned (None, Some ErrNoConnReuse), Returned (Some 7, None)]) \<and>
   length [1, 1, 1, 1, 1, 0, 0, 0 :: nat] \<le> 5 * 2 \<and>
   (\<exists>w < 2. [Returned (None, Some ErrNoConnReuse), Returned (Some (7::nat), None)] =
      (replicate 2 (Returned (None, Some ErrNoConnReuse)))[w := Returned (Some 7, None)])"
proof -
  have n: "(1::nat) \<le> 2" by simp
  have blocked: "exec [1, 1, 1, 1, 0, 1, 0, 0] (spawn 2 (NewSingleUseDialer (Some (7::nat)))) = None"
    by (simp add: spawn_def NewSingleUseDialer_def Lock_def Unlock_def numeral_2_eq_2)
  have run: "exec [1, 1, 1, 1, 1, 0, 0, 0] (spawn 2 (NewSingleUseDialer (Some (7::nat)))) =
     Some (\<lparr>mu = False, conn = None\<rparr>,
           [Returned (None, Some ErrNoConnReuse), Returned (Some 7, None)])"
    by (simp add: spawn_def NewSingleUseDialer_def Lock_def Unlock_def numeral_2_eq_2)
  have halt: "stuck (\<lparr>mu = False, conn = None :: nat option\<rparr>,
          [Returned (None, Some ErrNoConnReuse), Returned (Some 7, None)])"
    by (simp add: stuck_def upt_rec)
  from DialContext_concurrent_exactly_one [OF n run] halt n run blocked show ?thesis by simp
qed

text \<open>
  C2. A dialer constructed with a non-nil connection \<open>c\<close> holds exactly \<open>c\<close> in its slot,
  and one call of \<^verbatim>\<open>DialContext\<close>, with any arguments, returns \<open>c\<close> and a nil error.
\<close>

theorem DialContext_first_returns_conn:
  "conn (NewSingleUseDialer (Some c)) = Some c \<and>
   DialContext ctx network addr (NewSingleUseDialer (Some c)) =
     Some ((Some c, None), \<lparr>mu = False, conn = None\<rparr>)"
  by (simp add: NewSingleUseDialer_def DialContext_unlocked)

text \<open>
  C3. After a take that succeeded (either method, nil error), every later take on the same
  dialer, through either method, returns a nil connection and an error that
  \<^verbatim>\<open>errors.Is\<close> recognises as \<^verbatim>\<open>ErrNoConnReuse\<close>.
\<close>

theorem take_after_success_fails:
  assumes "take_conn k sud = Some ((c, None), s1)"
  shows "\<exists>rs. take_all ks s1 = Some (rs, s1) \<and> length rs = length ks \<and>
           (\<forall>r \<in> set rs. fst r = None \<and> errors_Is (snd r) (Some ErrNoConnReuse))"
proof -
  from take_conn_Some [OF assms] have "\<not> mu s1" and "conn s1 = None" by simp_all
  then have "take_all ks s1 = Some (replicate (length ks) (None, Some ErrNoConnReuse), s1)"
    by (rule take_all_spent)
  moreover have "errors_Is (Some ErrNoConnReuse) (Some ErrNoConnReuse)"
    using errors_Is_wrap [of "[]"] by simp
  ultimately show ?thesis by simp
qed

theorem take_after_success_fails_witness:
  "take_conn (DialTLS () ''tcp'' ''example.com:443'' (None :: unit option))
     (NewSingleUseDialer (Some (7::nat))) = Some ((Some 7, None), \<lparr>mu = False, conn = None\<rparr>) \<and>
   (\<exists>rs. take_all [Dial () ''tcp'' ''example.com:443'',
                    DialTLS () ''udp'' ''different.host:8080'' (None :: unit option)]
             \<lparr>mu = False, conn = None :: nat option\<rparr> = Some (rs, \<lparr>mu = False, conn = None\<rparr>) \<and>
         length rs = length [Dial () ''tcp'' ''example.com:443'',
                    DialTLS () ''udp'' ''different.host:8080'' (None :: unit option)] \<and>
         (\<forall>r \<in> set rs. fst r = None \<and> errors_Is (snd r) (Some ErrNoConnReuse)))"
proof -
  have first: "take_conn (DialTLS () ''tcp'' ''example.com:443'' (None :: unit option))
     (NewSingleUseDialer (Some (7::nat))) = Some ((Some 7, None), \<lparr>mu = False, conn = None\<rparr>)"
    by (simp add: NewSingleUseDialer_def DialTLSContext_def DialContext_def Lock_def Unlock_def
        DialContext_locked_def)
  show ?thesis by (rule conjI [OF first take_after_success_fails [OF first]])
qed

text \<open>
  C4. On every dialer, a sequence of takes through either method returns when the mutex
  is free, hands a connection out to at most one of its callers, and that connection is
  the one the slot held. Once the slot is empty it stays empty: from \<open>conn = None\<close> no
  call hands anything out and the slot is empty afterwards.
\<close>

theorem conn_handed_out_at_most_once:
  "(\<not> mu sud \<longrightarrow> (\<exists>rs s'. take_all ks sud = Some (rs, s'))) \<and>
   (take_all ks sud = Some (rs, s') \<longrightarrow>
      length (filter hands_out rs) \<le> 1 \<and>
      (\<forall>r \<in> set rs. hands_out r \<longrightarrow> fst r = conn sud) \<and>
      (conn sud = None \<longrightarrow> conn s' = None \<and> filter hands_out rs = []))"
  using take_all_returns [of sud ks] take_all_hands_out [of ks sud rs s'] by blast

theorem conn_handed_out_at_most_once_witness:
  "take_all [Dial () ''tcp'' ''example.com:443'',
             DialTLS () ''tcp'' ''example.com:443'' (None :: unit option),
             Dial () ''tcp'' ''example.com:443'']
     (NewSingleUseDialer (Some (7::nat))) =
     Some ([(Some 7, None), (None, Some ErrNoConnReuse), (None, Some ErrNoConnReuse)],
           \<lparr>mu = False, conn = None\<rparr>) \<and>
   length (filter hands_out
     [(Some (7::nat), None), (None, Some ErrNoConnReuse), (None, Some ErrNoConnReuse)]) \<le> 1 \<and>
   (\<exists>rs s'. take_all [Dial () ''tcp'' ''example.com:443'' :: (unit, unit) call]
      (NewSingleUseDialer (None :: nat option)) = Some (rs, s') \<and>
      conn s' = None \<and> filter hands_out rs = [])"
proof -
  have run: "take_all [Dial () ''tcp'' ''example.com:443'',
             DialTLS () ''tcp'' ''example.com:443'' (None :: unit option),
             Dial () ''tcp'' ''example.com:443'']
     (NewSingleUseDialer (Some (7::nat))) =
     Some ([(Some 7, None), (None, Some ErrNoConnReuse), (None, Some ErrNoConnReuse)],
           \<lparr>mu = False, conn = None\<rparr>)"
    by (simp add: NewSingleUseDialer_def DialTLSContext_def DialContext_def Lock_def Unlock_def
        DialContext_locked_def)
  have free: "\<not> mu (NewSingleUseDialer (None :: nat option))"
    and empty: "conn (NewSingleUseDialer (None :: nat option)) = None"
    by (simp_all add: NewSingleUseDialer_def)
  from conn_handed_out_at_most_once
    [of "NewSingleUseDialer (None :: nat option)"
        "[Dial () ''tcp'' ''example.com:443'' :: (unit, unit) call]"] free
  obtain rs s' where nil: "take_all [Dial () ''tcp'' ''example.com:443'' :: (unit, unit) call]
      (NewSingleUseDialer (None :: nat option)) = Some (rs, s')"
    by blast
  from conn_handed_out_at_most_once
    [of "NewSingleUseDialer (None :: nat option)"
        "[Dial () ''tcp'' ''example.com:443'' :: (unit, unit) call]" rs s'] nil empty
  have "conn s' = None \<and> filter hands_out rs = []" by blast
  with nil have third: "\<exists>rs s'. take_all [Dial () ''tcp'' ''example.com:443'' :: (unit, unit) call]
      (NewSingleUseDialer (None :: nat option)) = Some (rs, s') \<and>
      conn s' = None \<and> filter hands_out rs = []"
    by blast
  from conn_handed_out_at_most_once
    [of "NewSingleUseDialer (Some (7::nat))"
        "[Dial () ''tcp'' ''example.com:443'',
          DialTLS () ''tcp'' ''example.com:443'' (None :: unit option),
          Dial () ''tcp'' ''example.com:443'']"
        "[(Some 7, None), (None, Some ErrNoConnReuse), (None, Some ErrNoConnReuse)]"
        "\<lparr>mu = False, conn = None\<rparr>"] run
  have "length (filter hands_out
     [(Some (7::nat), None), (None, Some ErrNoConnReuse), (None, Some ErrNoConnReuse)]) \<le> 1"
    by blast
  with run third show ?thesis by blast
qed

text \<open>
  C5. In every state of the dialer, for every context, network, address and TLS
  configuration (nil or not), \<^verbatim>\<open>DialTLSContext\<close> returns what \<^verbatim>\<open>DialContext\<close> returns and
  leaves the state \<^verbatim>\<open>DialContext\<close> leaves; and so it does at every position of a sequence
  of calls.
\<close>

theorem DialTLSContext_is_DialContext:
  "DialTLSContext ctx network address cfg d = DialContext ctx network address d \<and>
   take_all (ks @ [DialTLS ctx network address cfg]) d =
     take_all (ks @ [Dial ctx network address]) d"
  by (simp add: DialTLSContext_def take_all_args)

text \<open>
  C6. The outcome of a take does not depend on its arguments: from the same state, two
  calls with any contexts, networks, addresses and TLS configurations return the same
  result and leave the same state, and two sequences of as many calls return the same
  results, whatever their arguments and methods. Only the position of a call decides.
\<close>

theorem take_ignores_arguments:
  "DialContext ctx network addr sud = DialContext ctx' network' addr' sud \<and>
   DialTLSContext ctx network addr cfg sud = DialTLSContext ctx' network' addr' cfg' sud \<and>
   (length ks = length ks' \<longrightarrow> take_all ks sud = take_all ks' sud)"
  using take_all_args [of ks ks' sud]
  by (cases "mu sud") (simp_all add: DialTLSContext_def DialContext_blocked DialContext_unlocked)

theorem take_ignores_arguments_witness:
  "length [Dial () ''tcp'' ''example.com:443'' :: (unit, unit) call, Dial () ''tcp'' ''example.com:443''] =
   length [DialTLS () ''udp'' ''different.host:8080'' (None :: unit option),
           Dial () ''unix'' ''/run/sock''] \<and>
   take_all [Dial () ''tcp'' ''example.com:443'' :: (unit, unit) call, Dial () ''tcp'' ''example.com:443'']
     (NewSingleUseDialer (Some (7::nat))) =
   take_all [DialTLS () ''udp'' ''different.host:8080'' (None :: unit option),
             Dial () ''unix'' ''/run/sock'']
     (NewSingleUseDialer (Some 7)) \<and>
   take_all [DialTLS () ''udp'' ''different.host:8080'' (None :: unit option),
             Dial () ''unix'' ''/run/sock'']
     (NewSingleUseDialer (Some (7::nat))) =
   Some ([(Some 7, None), (None, Some ErrNoConnReuse)], \<lparr>mu = False, conn = None\<rparr>)"
proof -
  have len: "length [Dial () ''tcp'' ''example.com:443'' :: (unit, unit) call,
                     Dial () ''tcp'' ''example.com:443''] =
   length [DialTLS () ''udp'' ''different.host:8080'' (None :: unit option),
           Dial () ''unix'' ''/run/sock'']"
    by simp
  have run: "take_all [DialTLS () ''udp'' ''different.host:8080'' (None :: unit option),
             Dial () ''unix'' ''/run/sock'']
     (NewSingleUseDialer (Some (7::nat))) =
   Some ([(Some 7, None), (None, Some ErrNoConnReuse)], \<lparr>mu = False, conn = None\<rparr>)"
    by (simp add: NewSingleUseDialer_def DialTLSContext_def DialContext_def Lock_def Unlock_def
        DialContext_locked_def)
  from take_ignores_arguments [THEN conjunct2, THEN conjunct2, THEN mp, OF len]
  have "take_all [Dial () ''tcp'' ''example.com:443'' :: (unit, unit) call, Dial () ''tcp'' ''example.com:443'']
     (NewSingleUseDialer (Some (7::nat))) =
   take_all [DialTLS () ''udp'' ''different.host:8080'' (None :: unit option),
             Dial () ''unix'' ''/run/sock'']
     (NewSingleUseDialer (Some 7))" .
  with len run show ?thesis by (intro conjI)
qed

text \<open>
  C7. \<^verbatim>\<open>ErrNoConnReuse\<close> is one fixed error value with the message
  "cannot reuse connection". The error of every take that fails, through either method,
  is recognised by \<^verbatim>\<open>errors.Is\<close> against the sentinel, directly and under any number of
  wrapping layers.
\<close>

theorem ErrNoConnReuse_detected:
  "Error ErrNoConnReuse = ''cannot reuse connection'' \<and>
   (take_conn k sud = Some ((c, Some e), s1) \<longrightarrow>
      errors_Is (Some (wrap ms e)) (Some ErrNoConnReuse))"
proof -
  have "e = ErrNoConnReuse" if "take_conn k sud = Some ((c, Some e), s1)"
    using take_conn_Some [OF that] by (cases "conn sud = None") simp_all
  then show ?thesis by (auto simp: ErrNoConnReuse_def errors_Is_wrap)
qed

theorem ErrNoConnReuse_detected_witness:
  "take_conn (Dial () ''tcp'' ''example.com:443'' :: (unit, unit) call)
     \<lparr>mu = False, conn = None :: nat option\<rparr> =
     Some ((None, Some ErrNoConnReuse), \<lparr>mu = False, conn = None\<rparr>) \<and>
   errors_Is (Some (wrapError ''round trip: dial: cannot reuse connection''
                     (wrapError ''dial: cannot reuse connection'' ErrNoConnReuse)))
             (Some ErrNoConnReuse)"
proof -
  have lose: "take_conn (Dial () ''tcp'' ''example.com:443'' :: (unit, unit) call)
     \<lparr>mu = False, conn = None :: nat option\<rparr> =
     Some ((None, Some ErrNoConnReuse), \<lparr>mu = False, conn = None\<rparr>)"
    by (simp add: DialContext_def Lock_def Unlock_def DialContext_locked_def)
  from ErrNoConnReuse_detected
    [of "Dial () ''tcp'' ''example.com:443'' :: (unit, unit) call"
        "\<lparr>mu = False, conn = None :: nat option\<rparr>" None ErrNoConnReuse
        "\<lparr>mu = False, conn = None\<rparr>"
        "[''round trip: dial: cannot reuse connection'', ''dial: cannot reuse connection'']"] lose
  show ?thesis by simp
qed

text \<open>
  C8. On a dialer constructed with a nil connection every take, the first included and
  through either method, returns nil and \<^verbatim>\<open>ErrNoConnReuse\<close> and changes nothing; and the
  dialer constructed with nil is the very state a seeded dialer is in after its one
  successful take.
\<close>

theorem take_from_nil_always_fails:
  "take_all ks (NewSingleUseDialer None) =
     Some (replicate (length ks) (None, Some ErrNoConnReuse), NewSingleUseDialer None) \<and>
   take_conn k (NewSingleUseDialer (Some c)) = Some ((Some c, None), NewSingleUseDialer None)"
  by (simp add: NewSingleUseDialer_def take_all_spent take_conn_unlocked)

text \<open>
  C9. A take that returns a non-nil error, through either method, leaves the dialer in
  exactly the state it had before the call.
\<close>

theorem failed_take_keeps_state:
  assumes "take_conn k sud = Some ((c, Some e), s1)"
  shows "s1 = sud"
  using take_conn_Some [OF assms] by (cases "conn sud = None") simp_all

theorem failed_take_keeps_state_witness:
  "take_conn (DialTLS () ''tcp'' ''example.com:443'' (None :: unit option))
     \<lparr>mu = False, conn = None :: nat option\<rparr> =
     Some ((None, Some ErrNoConnReuse), \<lparr>mu = False, conn = None\<rparr>) \<and>
   \<lparr>mu = False, conn = None :: nat option\<rparr> = \<lparr>mu = False, conn = None\<rparr>"
proof -
  have lose: "take_conn (DialTLS () ''tcp'' ''example.com:443'' (None :: unit option))
     \<lparr>mu = False, conn = None :: nat option\<rparr> =
     Some ((None, Some ErrNoConnReuse), \<lparr>mu = False, conn = None\<rparr>)"
    by (simp add: DialTLSContext_def DialContext_def Lock_def Unlock_def DialContext_locked_def)
  from failed_take_keeps_state [OF lose] lose show ?thesis by simp
qed

text \<open>
  C10. Both methods draw from the one slot: in every sequence of calls that mixes them
  on a dialer seeded with a non-nil connection \<open>c\<close>, the first call returns \<open>c\<close> and no
  error, and every later call returns nil and \<^verbatim>\<open>ErrNoConnReuse\<close>.
\<close>

theorem mixed_calls_share_slot:
  "take_all (k # ks) (NewSingleUseDialer (Some c)) =
     Some ((Some c, None) # replicate (length ks) (None, Some ErrNoConnReuse),
           \<lparr>mu = False, conn = None\<rparr>)"
  by (simp add: NewSingleUseDialer_def take_conn_unlocked take_all_spent)

end
